theory Spec2Isabelle
  imports Main "HOL-Library.Char_ord" "HOL-Library.List_Lexorder" "HOL-Library.Multiset"
begin

section \<open>Data model\<close>

text \<open>
  The scripts \<^verbatim>\<open>pr_all_repos_daily_snapshot.py\<close>, \<^verbatim>\<open>send_pr_report.py\<close> and
  \<^verbatim>\<open>pr_daily_report.py\<close> read pull requests and reviews from the GitHub API and
  aggregate them into one daily report.

  Instants are integers counting microseconds since the epoch (UTC): \<^verbatim>\<open>datetime.now\<close>
  has microsecond resolution, the timestamps of the API are whole seconds. A
  \<^verbatim>\<open>timedelta\<close> is the integer difference of two instants.

  The HTTP layer is not modelled. A repository record carries the outcome of each
  gateway call the scripts make for it: \<^verbatim>\<open>get_prs(owner, name, "open")\<close>,
  \<^verbatim>\<open>get_prs(owner, name, "closed")\<close> and \<^verbatim>\<open>get_reviews(owner, name, n)\<close>. An outcome is
  either the exception raised by \<^verbatim>\<open>raise_for_status\<close> (\<open>Inl\<close>) or the list returned
  (\<open>Inr\<close>; a 404 answer is the empty list). The same call gives the same outcome
  throughout one run.
\<close>

datatype error = RequestException

record review =
  review_user :: string
  review_state :: string

record pr =
  pr_number :: nat
  pr_user :: string
  pr_created_at :: int
  pr_merged_at :: "int option"
  pr_labels :: "string list"

record repo =
  repo_owner :: string
  repo_name :: string
  open_result :: "error + pr list"
  closed_result :: "error + pr list"
  reviews_result :: "nat \<Rightarrow> error + review list"

definition hours :: "int \<Rightarrow> int" where
  "hours n = n * 3600000000"

definition days :: "int \<Rightarrow> int" where
  "days n = n * 86400000000"

definition today_start :: "int \<Rightarrow> int" where
  \<comment> \<open>\<^verbatim>\<open>datetime(now.year, now.month, now.day, tzinfo=timezone.utc)\<close>\<close>
  "today_start now = now - now mod days 1"

text \<open>
  \<^verbatim>\<open>str.lower\<close> on the ASCII letters: an upper-case letter \<open>A..Z\<close> (codes 65 to 90, bit 5
  clear) becomes the letter 32 above it (bit 5 set). Other bytes are left alone; no
  character outside ASCII lowers to a letter of the words the scripts compare with.
\<close>

definition lower_char :: "char \<Rightarrow> char" where
  "lower_char c =
     (if CHR ''A'' \<le> c \<and> c \<le> CHR ''Z''
      then Char (digit0 c) (digit1 c) (digit2 c) (digit3 c) (digit4 c) True (digit6 c) (digit7 c)
      else c)"

definition lower :: "string \<Rightarrow> string" where
  "lower s = map lower_char s"

section \<open>Classification of one pull request\<close>

definition states_of :: "review list \<Rightarrow> string list" where
  \<comment> \<open>\<^verbatim>\<open>states = [r["state"].lower() for r in reviews]\<close>\<close>
  "states_of reviews = map (\<lambda>r. lower (review_state r)) reviews"

text \<open>\<^verbatim>\<open>is_changes_requested\<close> of \<^verbatim>\<open>pr_daily_report.py\<close>: a loop over the reversed list.\<close>

fun changes_requested_loop :: "review list \<Rightarrow> bool" where
  "changes_requested_loop [] = False"
| "changes_requested_loop (r # rs) =
     (if lower (review_state r) = ''changes_requested'' then True
      else changes_requested_loop rs)"

definition is_changes_requested :: "review list \<Rightarrow> bool" where
  "is_changes_requested reviews = changes_requested_loop (rev reviews)"

definition has_label :: "string list \<Rightarrow> pr \<Rightarrow> bool" where
  \<comment> \<open>\<^verbatim>\<open>any(lbl['name'].lower() in names for lbl in pr.get('labels', []))\<close>\<close>
  "has_label names p = list_ex (\<lambda>l. lower l \<in> set names) (pr_labels p)"

text \<open>
  The body of \<^verbatim>\<open>for pr in open_prs\<close> in the two multi-repository scripts, on the lists
  and counters it updates.
\<close>

record open_scan =
  prs_with_changes_requested :: "pr list"
  prs_not_approved :: "pr list"
  prs_hotfix :: "pr list"
  prs_pending_review :: "pr list"
  scan_stuck :: nat
  scan_pending_release :: nat

definition empty_scan :: open_scan where
  "empty_scan = \<lparr>prs_with_changes_requested = [], prs_not_approved = [], prs_hotfix = [],
     prs_pending_review = [], scan_stuck = 0, scan_pending_release = 0\<rparr>"

definition scan_pr :: "int \<Rightarrow> review list \<Rightarrow> pr \<Rightarrow> open_scan \<Rightarrow> open_scan" where
  "scan_pr now reviews p s =
     (let states = states_of reviews;
          s1 = (if ''changes_requested'' \<in> set states
                then s\<lparr>prs_with_changes_requested := prs_with_changes_requested s @ [p]\<rparr> else s);
          s2 = (if ''approved'' \<notin> set states
                then s1\<lparr>prs_not_approved := prs_not_approved s1 @ [p]\<rparr> else s1);
          s3 = (if has_label [''hotfix'', ''critical''] p
                then s2\<lparr>prs_hotfix := prs_hotfix s2 @ [p]\<rparr> else s2);
          created_at = pr_created_at p;
          s4 = (if now - created_at > hours 24 \<and> length reviews = 0
                then s3\<lparr>prs_pending_review := prs_pending_review s3 @ [p]\<rparr> else s3);
          s5 = (if now - created_at > days 2
                then s4\<lparr>scan_stuck := scan_stuck s4 + 1\<rparr> else s4)
      in (if has_label [''pending-release''] p
          then s5\<lparr>scan_pending_release := scan_pending_release s5 + 1\<rparr> else s5))"

fun scan_open :: "int \<Rightarrow> (nat \<Rightarrow> error + review list) \<Rightarrow> pr list \<Rightarrow> open_scan
    \<Rightarrow> error + open_scan" where
  "scan_open now rv [] s = Inr s"
| "scan_open now rv (p # ps) s =
     (case rv (pr_number p) of
        Inl e \<Rightarrow> Inl e
      | Inr reviews \<Rightarrow> scan_open now rv ps (scan_pr now reviews p s))"

text \<open>
  The spec's reading of the review list: of each reviewer only the last review, in the
  order the reviews were submitted, counts.
\<close>

fun spec_latest_per_reviewer :: "review list \<Rightarrow> review list" where
  "spec_latest_per_reviewer [] = []"
| "spec_latest_per_reviewer (r # rs) =
     (if review_user r \<in> set (map review_user rs) then spec_latest_per_reviewer rs
      else r # spec_latest_per_reviewer rs)"

definition spec_changes_requested :: "review list \<Rightarrow> bool" where
  "spec_changes_requested reviews =
     list_ex (\<lambda>r. lower (review_state r) = ''changes_requested'')
       (spec_latest_per_reviewer reviews)"

definition spec_not_approved :: "review list \<Rightarrow> bool" where
  "spec_not_approved reviews =
     (\<not> list_ex (\<lambda>r. lower (review_state r) = ''approved'')
          (spec_latest_per_reviewer reviews))"

section \<open>Per-member counters\<close>

text \<open>
  \<^verbatim>\<open>members = defaultdict(lambda: {"raised": 0, ...})\<close>: a dictionary that creates the
  all-zero entry on the first access of a key. Python dictionaries keep their keys in
  insertion order, so the model is an association list with one entry per key, new keys
  at the end.
\<close>

record member_stats =
  raised :: nat
  merged :: nat
  changes_requested :: nat
  not_approved :: nat
  reviews_done :: nat

definition default_stats :: member_stats where
  "default_stats = \<lparr>raised = 0, merged = 0, changes_requested = 0, not_approved = 0,
     reviews_done = 0\<rparr>"

type_synonym members = "(string \<times> member_stats) list"

fun upd_member :: "string \<Rightarrow> (member_stats \<Rightarrow> member_stats) \<Rightarrow> members \<Rightarrow> members" where
  "upd_member k f [] = [(k, f default_stats)]"
| "upd_member k f ((k', v) # m) =
     (if k' = k then (k', f v) # m else (k', v) # upd_member k f m)"

definition count_authors :: "(member_stats \<Rightarrow> member_stats) \<Rightarrow> pr list \<Rightarrow> members \<Rightarrow> members" where
  \<comment> \<open>\<^verbatim>\<open>for pr in prs: members[pr["user"]["login"]][field] += 1\<close>\<close>
  "count_authors f prs m = fold (\<lambda>p. upd_member (pr_user p) f) prs m"

text \<open>\<^verbatim>\<open>reviews_done_map = defaultdict(int)\<close> and the loop that fills it.\<close>

fun bump :: "string \<Rightarrow> (string \<times> nat) list \<Rightarrow> (string \<times> nat) list" where
  "bump k [] = [(k, 1)]"
| "bump k ((k', c) # m) = (if k' = k then (k', c + 1) # m else (k', c) # bump k m)"

fun count_reviews :: "(nat \<Rightarrow> error + review list) \<Rightarrow> nat list \<Rightarrow> (string \<times> nat) list
    \<Rightarrow> error + (string \<times> nat) list" where
  "count_reviews rv [] m = Inr m"
| "count_reviews rv (pr_id # ids) m =
     (case rv pr_id of
        Inl e \<Rightarrow> Inl e
      | Inr reviews \<Rightarrow> count_reviews rv ids (fold (\<lambda>r. bump (review_user r)) reviews m))"

definition set_reviews_done :: "(string \<times> nat) list \<Rightarrow> members \<Rightarrow> members" where
  \<comment> \<open>\<^verbatim>\<open>for user, count_r in reviews_done_map.items(): members[user]["reviews_done"] = count_r\<close>\<close>
  "set_reviews_done rd m =
     fold (\<lambda>(user, count_r). upd_member user (\<lambda>st. st\<lparr>reviews_done := count_r\<rparr>)) rd m"

record member_row =
  row_member :: string
  row_raised :: nat
  row_merged :: nat
  row_changes_requested :: nat
  row_not_approved :: nat
  row_reviews_done :: nat
  row_repo :: string

definition rows_of :: "string \<Rightarrow> members \<Rightarrow> member_row list" where
  "rows_of name m =
     map (\<lambda>(member, stats). \<lparr>row_member = member, row_raised = raised stats,
            row_merged = merged stats, row_changes_requested = changes_requested stats,
            row_not_approved = not_approved stats, row_reviews_done = reviews_done stats,
            row_repo = name\<rparr>) m"

section \<open>The loop over the repositories\<close>

text \<open>
  The variables \<^verbatim>\<open>main\<close> accumulates over the repositories. A review-cycle time is kept
  as the exact difference \<^verbatim>\<open>merged - created\<close>; the scripts store that difference
  divided by 3600 seconds as a float.
\<close>

record acc =
  total_raised :: nat
  total_merged :: nat
  total_changes_requested :: nat
  total_not_approved :: nat
  total_hotfix :: nat
  total_pending_24h :: nat
  pr_stuck :: nat
  pending_release :: nat
  oldest_open_date :: "int option"
  review_cycle_times :: "int list"
  member_rows :: "member_row list"

definition init_acc :: acc where
  "init_acc = \<lparr>total_raised = 0, total_merged = 0, total_changes_requested = 0,
     total_not_approved = 0, total_hotfix = 0, total_pending_24h = 0, pr_stuck = 0,
     pending_release = 0, oldest_open_date = None, review_cycle_times = [],
     member_rows = []\<rparr>"

definition raised_today :: "int \<Rightarrow> pr \<Rightarrow> bool" where
  "raised_today today p = (pr_created_at p \<ge> today)"

definition merged_today :: "int \<Rightarrow> pr \<Rightarrow> bool" where
  \<comment> \<open>\<^verbatim>\<open>pr.get("merged_at") and iso_to_dt(pr["merged_at"]) >= today_start\<close>\<close>
  "merged_today today p = (case pr_merged_at p of None \<Rightarrow> False | Some m \<Rightarrow> m \<ge> today)"

fun min_created :: "pr \<Rightarrow> pr list \<Rightarrow> pr" where
  \<comment> \<open>\<^verbatim>\<open>min(open_prs, key=lambda pr: pr["created_at"])\<close>: the first pull request of least key\<close>
  "min_created best [] = best"
| "min_created best (p # ps) =
     min_created (if pr_created_at p < pr_created_at best then p else best) ps"

definition track_oldest :: "pr list \<Rightarrow> int option \<Rightarrow> int option" where
  "track_oldest open_prs oldest =
     (case open_prs of
        [] \<Rightarrow> oldest
      | p # ps \<Rightarrow>
          (let repo_oldest_date = pr_created_at (min_created p ps)
           in case oldest of
                None \<Rightarrow> Some repo_oldest_date
              | Some d \<Rightarrow> if repo_oldest_date < d then Some repo_oldest_date else Some d))"

text \<open>
  \<^verbatim>\<open>send_pr_report.py\<close> tracks the oldest open pull request inside the loop over the open
  pull requests instead.
\<close>

definition track_oldest_send :: "pr list \<Rightarrow> int option \<Rightarrow> int option" where
  "track_oldest_send open_prs oldest =
     fold (\<lambda>p old. case old of
                      None \<Rightarrow> Some (pr_created_at p)
                    | Some d \<Rightarrow> if pr_created_at p < d then Some (pr_created_at p) else Some d)
       open_prs oldest"

definition cycle_times :: "pr list \<Rightarrow> int list" where
  \<comment> \<open>every pull request merged today has its \<^verbatim>\<open>merged_at\<close>\<close>
  "cycle_times prs =
     concat (map (\<lambda>p. case pr_merged_at p of None \<Rightarrow> [] | Some m \<Rightarrow> [m - pr_created_at p]) prs)"

definition build_members :: "pr list \<Rightarrow> pr list \<Rightarrow> open_scan \<Rightarrow> (string \<times> nat) list \<Rightarrow> members" where
  "build_members prs_raised_today prs_merged_today sc reviews_done_map =
     set_reviews_done reviews_done_map
       (count_authors (\<lambda>st. st\<lparr>not_approved := not_approved st + 1\<rparr>) (prs_not_approved sc)
         (count_authors (\<lambda>st. st\<lparr>changes_requested := changes_requested st + 1\<rparr>)
            (prs_with_changes_requested sc)
           (count_authors (\<lambda>st. st\<lparr>merged := merged st + 1\<rparr>) prs_merged_today
             (count_authors (\<lambda>st. st\<lparr>raised := raised st + 1\<rparr>) prs_raised_today []))))"

definition aggregate_repo :: "int \<Rightarrow> repo \<Rightarrow> pr list \<Rightarrow> pr list \<Rightarrow> acc \<Rightarrow> error + acc" where
  "aggregate_repo now r open_prs closed_prs a =
     (let prs_raised_today = filter (raised_today (today_start now)) (open_prs @ closed_prs);
          prs_merged_today = filter (merged_today (today_start now)) closed_prs
      in case scan_open now (reviews_result r) open_prs empty_scan of
           Inl e \<Rightarrow> Inl e
         | Inr sc \<Rightarrow>
            (case count_reviews (reviews_result r)
                    (map pr_number (prs_raised_today @ prs_merged_today)) [] of
               Inl e \<Rightarrow> Inl e
             | Inr reviews_done_map \<Rightarrow>
                 Inr \<lparr>total_raised = total_raised a + length prs_raised_today,
                      total_merged = total_merged a + length prs_merged_today,
                      total_changes_requested =
                        total_changes_requested a + length (prs_with_changes_requested sc),
                      total_not_approved = total_not_approved a + length (prs_not_approved sc),
                      total_hotfix = total_hotfix a + length (prs_hotfix sc),
                      total_pending_24h = total_pending_24h a + length (prs_pending_review sc),
                      pr_stuck = pr_stuck a + scan_stuck sc,
                      pending_release = pending_release a + scan_pending_release sc,
                      oldest_open_date = track_oldest open_prs (oldest_open_date a),
                      review_cycle_times = review_cycle_times a @ cycle_times prs_merged_today,
                      member_rows = member_rows a @
                        rows_of (repo_name r)
                          (build_members prs_raised_today prs_merged_today sc
                             reviews_done_map)\<rparr>))"

definition process_repo :: "int \<Rightarrow> repo \<Rightarrow> acc \<Rightarrow> error + acc" where
  \<comment> \<open>only the two \<^verbatim>\<open>get_prs\<close> calls are inside the \<^verbatim>\<open>try\<close>; \<^verbatim>\<open>except\<close> goes on to the next repository\<close>
  "process_repo now r a =
     (case open_result r of
        Inl e \<Rightarrow> Inr a
      | Inr open_prs \<Rightarrow>
          (case closed_result r of
             Inl e \<Rightarrow> Inr a
           | Inr closed_prs \<Rightarrow> aggregate_repo now r open_prs closed_prs a))"

fun main_loop :: "int \<Rightarrow> repo list \<Rightarrow> acc \<Rightarrow> error + acc" where
  "main_loop now [] a = Inr a"
| "main_loop now (r # rs) a =
     (case process_repo now r a of
        Inl e \<Rightarrow> Inl e
      | Inr a' \<Rightarrow> main_loop now rs a')"

section \<open>The figures derived after the loop\<close>

fun stale_loop :: "int \<Rightarrow> repo list \<Rightarrow> string set \<Rightarrow> string set" where
  "stale_loop now [] stale_pr_owners = stale_pr_owners"
| "stale_loop now (r # rs) stale_pr_owners =
     (case open_result r of
        Inl e \<Rightarrow> stale_loop now rs stale_pr_owners
      | Inr open_prs \<Rightarrow>
          stale_loop now rs
            (fold (\<lambda>p s. if now - pr_created_at p > days 7 then insert (pr_user p) s else s)
               open_prs stale_pr_owners))"

fun join :: "string \<Rightarrow> string list \<Rightarrow> string" where
  "join sep [] = []"
| "join sep [x] = x"
| "join sep (x # y # xs) = x @ sep @ join sep (y # xs)"

fun max_by :: "('a \<Rightarrow> nat) \<Rightarrow> 'a \<Rightarrow> 'a list \<Rightarrow> 'a" where
  \<comment> \<open>\<^verbatim>\<open>max(rows, key=...)\<close>: the first row of greatest key\<close>
  "max_by key best [] = best"
| "max_by key best (x # xs) = max_by key (if key x > key best then x else best) xs"

definition most_of :: "(member_row \<Rightarrow> nat) \<Rightarrow> member_row list \<Rightarrow> string" where
  "most_of key rows = (case rows of [] \<Rightarrow> ''-'' | x # xs \<Rightarrow> row_member (max_by key x xs))"

text \<open>
  What the report prints. \<^verbatim>\<open>avg_review_time\<close> is computed in floating point from
  \<^verbatim>\<open>review_cycle_times\<close> and is not among the fields; the pooled list is in \<open>counters\<close>.
\<close>

record report =
  counters :: acc
  oldest_open_days :: int
  most_active :: string
  review_heavy :: string
  owners_stale_prs :: string
  blocker_owners :: string
  reopened_failed :: nat

definition summarise :: "int \<Rightarrow> repo list \<Rightarrow> acc \<Rightarrow> report" where
  "summarise now repos a =
     \<lparr>counters = a,
      oldest_open_days =
        (case oldest_open_date a of Some d \<Rightarrow> (now - d) div days 1 | None \<Rightarrow> 0),
      most_active = most_of row_raised (member_rows a),
      review_heavy = most_of row_reviews_done (member_rows a),
      owners_stale_prs =
        (let stale_pr_owners = stale_loop now repos {}
         in if stale_pr_owners \<noteq> {} then join '', '' (sorted_list_of_set stale_pr_owners)
            else ''-''),
      blocker_owners = ''-'',
      reopened_failed = 0\<rparr>"

definition main :: "int \<Rightarrow> repo list \<Rightarrow> error + report option" where
  \<comment> \<open>without repositories \<^verbatim>\<open>main\<close> prints a notice and returns without a report\<close>
  "main now repos =
     (if repos = [] then Inr None
      else case main_loop now repos init_acc of
             Inl e \<Rightarrow> Inl e
           | Inr a \<Rightarrow> Inr (Some (summarise now repos a)))"

section \<open>The single-repository report\<close>

text \<open>
  \<^verbatim>\<open>pr_daily_report.py\<close> derives its owner lists with \<^verbatim>\<open>", ".join(set(...)) or "-"\<close>.
  Python does not fix the order in which a set is iterated, so the enumeration is an
  argument of the model.
\<close>

definition daily_prs_hotfix :: "pr list \<Rightarrow> pr list" where
  "daily_prs_hotfix open_prs = filter (has_label [''hotfix'', ''critical'']) open_prs"

definition daily_blocker_owners :: "(string set \<Rightarrow> string list) \<Rightarrow> pr list \<Rightarrow> string" where
  "daily_blocker_owners iter open_prs =
     (let joined = join '', '' (iter (set (map pr_user (daily_prs_hotfix open_prs))))
      in if joined = [] then ''-'' else joined)"

section \<open>Notions used in the statements\<close>

definition reviews_in :: "(nat \<Rightarrow> error + review list) \<Rightarrow> pr \<Rightarrow> review list" where
  \<comment> \<open>the reviews \<^verbatim>\<open>get_reviews\<close> returns for a pull request, when the call succeeds\<close>
  "reviews_in rv p = (case rv (pr_number p) of Inl e \<Rightarrow> [] | Inr reviews \<Rightarrow> reviews)"

definition retrieval_fails :: "repo \<Rightarrow> bool" where
  "retrieval_fails r =
     (case open_result r of
        Inl e \<Rightarrow> True
      | Inr open_prs \<Rightarrow> (case closed_result r of Inl e \<Rightarrow> True | Inr closed_prs \<Rightarrow> False))"

definition totals_match :: "acc \<Rightarrow> bool" where
  "totals_match a \<longleftrightarrow>
     total_raised a = sum_list (map row_raised (member_rows a)) \<and>
     total_merged a = sum_list (map row_merged (member_rows a)) \<and>
     total_changes_requested a = sum_list (map row_changes_requested (member_rows a)) \<and>
     total_not_approved a = sum_list (map row_not_approved (member_rows a))"

definition stale_owners :: "int \<Rightarrow> repo list \<Rightarrow> string set" where
  "stale_owners now repos =
     (\<Union>r\<in>set repos. case open_result r of
        Inl e \<Rightarrow> {}
      | Inr open_prs \<Rightarrow> pr_user ` {p \<in> set open_prs. now - pr_created_at p > days 7})"

definition todays_prs :: "int \<Rightarrow> pr list \<Rightarrow> pr list \<Rightarrow> pr list" where
  "todays_prs now open_prs closed_prs =
     filter (raised_today (today_start now)) (open_prs @ closed_prs) @
     filter (merged_today (today_start now)) closed_prs"

definition spec_reviews_done :: "(nat \<Rightarrow> error + review list) \<Rightarrow> pr list \<Rightarrow> string \<Rightarrow> nat" where
  "spec_reviews_done rv prs u =
     length (filter (\<lambda>x. review_user x = u) (concat (map (reviews_in rv) (remdups prs))))"

definition stats_of :: "members \<Rightarrow> string \<Rightarrow> member_stats" where
  "stats_of m u = (case map_of m u of None \<Rightarrow> default_stats | Some v \<Rightarrow> v)"

definition counted_prs :: "int \<Rightarrow> repo \<Rightarrow> pr list \<Rightarrow> pr list \<Rightarrow> pr list" where
  \<comment> \<open>the pull requests whose authors \<^verbatim>\<open>main\<close> counts into \<^verbatim>\<open>members\<close> for one repository\<close>
  "counted_prs now r open_prs closed_prs =
     todays_prs now open_prs closed_prs @
     filter (\<lambda>p. ''changes_requested'' \<in> set (states_of (reviews_in (reviews_result r) p)))
       open_prs @
     filter (\<lambda>p. ''approved'' \<notin> set (states_of (reviews_in (reviews_result r) p))) open_prs"

text \<open>
  The reducer in the spec's words: totals are sums, member rows are concatenated, the
  oldest open date is the minimum over the repositories that have an open pull request,
  the review-cycle durations are pooled.
\<close>

definition oldest_spec :: "int option \<Rightarrow> int option \<Rightarrow> int option" where
  "oldest_spec x y =
     (case x of
        None \<Rightarrow> y
      | Some d \<Rightarrow> (case y of None \<Rightarrow> Some d | Some e \<Rightarrow> Some (min d e)))"

definition reduce_spec :: "acc \<Rightarrow> acc \<Rightarrow> acc" where
  "reduce_spec a b =
     \<lparr>total_raised = total_raised a + total_raised b,
      total_merged = total_merged a + total_merged b,
      total_changes_requested = total_changes_requested a + total_changes_requested b,
      total_not_approved = total_not_approved a + total_not_approved b,
      total_hotfix = total_hotfix a + total_hotfix b,
      total_pending_24h = total_pending_24h a + total_pending_24h b,
      pr_stuck = pr_stuck a + pr_stuck b,
      pending_release = pending_release a + pending_release b,
      oldest_open_date = oldest_spec (oldest_open_date a) (oldest_open_date b),
      review_cycle_times = review_cycle_times a @ review_cycle_times b,
      member_rows = member_rows a @ member_rows b\<rparr>"

definition same_totals :: "acc \<Rightarrow> acc \<Rightarrow> bool" where
  \<comment> \<open>the same global totals, the same pool of durations, the same oldest open date\<close>
  "same_totals a b =
     (total_raised a = total_raised b \<and> total_merged a = total_merged b \<and>
      total_changes_requested a = total_changes_requested b \<and>
      total_not_approved a = total_not_approved b \<and> total_hotfix a = total_hotfix b \<and>
      total_pending_24h a = total_pending_24h b \<and> pr_stuck a = pr_stuck b \<and>
      pending_release a = pending_release b \<and>
      mset (review_cycle_times a) = mset (review_cycle_times b) \<and>
      oldest_open_date a = oldest_open_date b)"

section \<open>Example inputs\<close>

definition review_cr :: review where
  "review_cr = \<lparr>review_user = ''alice'', review_state = ''CHANGES_REQUESTED''\<rparr>"

definition review_ok :: review where
  "review_ok = \<lparr>review_user = ''alice'', review_state = ''APPROVED''\<rparr>"

definition pr_open :: pr where
  "pr_open = \<lparr>pr_number = 7, pr_user = ''bob'', pr_created_at = 1704000000000000,
     pr_merged_at = None, pr_labels = [''HotFix'']\<rparr>"

definition pr_merged :: pr where
  "pr_merged = \<lparr>pr_number = 1, pr_user = ''bob'', pr_created_at = 1704877200000000,
     pr_merged_at = Some 1704877200000000, pr_labels = []\<rparr>"

definition repo_demo :: repo where
  "repo_demo = \<lparr>repo_owner = ''acme'', repo_name = ''demo'', open_result = Inr [],
     closed_result = Inr [pr_merged],
     reviews_result = (\<lambda>n. if n = 1 then Inr [review_ok] else Inr [])\<rparr>"

definition repo_down :: repo where
  "repo_down = \<lparr>repo_owner = ''acme'', repo_name = ''down'', open_result = Inr [pr_open],
     closed_result = Inl RequestException, reviews_result = (\<lambda>n. Inr [])\<rparr>"

definition acc_demo :: acc where
  "acc_demo = \<lparr>total_raised = 1, total_merged = 1, total_changes_requested = 0,
     total_not_approved = 0, total_hotfix = 0, total_pending_24h = 0, pr_stuck = 0,
     pending_release = 0, oldest_open_date = None, review_cycle_times = [0],
     member_rows =
       [\<lparr>row_member = ''bob'', row_raised = 1, row_merged = 1, row_changes_requested = 0,
          row_not_approved = 0, row_reviews_done = 0, row_repo = ''demo''\<rparr>,
        \<lparr>row_member = ''alice'', row_raised = 0, row_merged = 0, row_changes_requested = 0,
          row_not_approved = 0, row_reviews_done = 2, row_repo = ''demo''\<rparr>]\<rparr>"

definition repo_bad :: repo where
  \<comment> \<open>both \<^verbatim>\<open>get_prs\<close> calls succeed, every \<^verbatim>\<open>get_reviews\<close> call raises\<close>
  "repo_bad = \<lparr>repo_owner = ''acme'', repo_name = ''bad'', open_result = Inr [pr_open],
     closed_result = Inr [], reviews_result = (\<lambda>n. Inl RequestException)\<rparr>"

definition repo_open :: repo where
  "repo_open = \<lparr>repo_owner = ''acme'', repo_name = ''open'', open_result = Inr [pr_open],
     closed_result = Inr [], reviews_result = (\<lambda>n. Inr [])\<rparr>"

definition acc_open :: acc where
  "acc_open = \<lparr>total_raised = 0, total_merged = 0, total_changes_requested = 0,
     total_not_approved = 1, total_hotfix = 1, total_pending_24h = 1, pr_stuck = 1,
     pending_release = 0, oldest_open_date = Some 1704000000000000, review_cycle_times = [],
     member_rows =
       [\<lparr>row_member = ''bob'', row_raised = 0, row_merged = 0, row_changes_requested = 0,
          row_not_approved = 1, row_reviews_done = 0, row_repo = ''open''\<rparr>]\<rparr>"

section \<open>Classification: any review counts\<close>

lemma in_states_of:
  "w \<in> set (states_of reviews) \<longleftrightarrow> (\<exists>x\<in>set reviews. lower (review_state x) = w)"
  by (auto simp: states_of_def)

lemma changes_requested_loop_iff:
  "changes_requested_loop rs \<longleftrightarrow> (\<exists>x\<in>set rs. lower (review_state x) = ''changes_requested'')"
  by (induction rs) auto

lemma scan_pr_lists:
  "prs_with_changes_requested (scan_pr now reviews p s) =
     prs_with_changes_requested s @
       (if ''changes_requested'' \<in> set (states_of reviews) then [p] else [])"
  "prs_not_approved (scan_pr now reviews p s) =
     prs_not_approved s @ (if ''approved'' \<notin> set (states_of reviews) then [p] else [])"
  by (simp_all add: scan_pr_def Let_def)

lemma scan_open_lists:
  "scan_open now rv ps s = Inr sc \<Longrightarrow>
     prs_with_changes_requested sc =
       prs_with_changes_requested s @
         filter (\<lambda>p. ''changes_requested'' \<in> set (states_of (reviews_in rv p))) ps \<and>
     prs_not_approved sc =
       prs_not_approved s @ filter (\<lambda>p. ''approved'' \<notin> set (states_of (reviews_in rv p))) ps"
proof (induction ps arbitrary: s)
  case Nil
  then show ?case by simp
next
  case (Cons p ps)
  from Cons.prems obtain reviews where rv: "rv (pr_number p) = Inr reviews"
    and rest: "scan_open now rv ps (scan_pr now reviews p s) = Inr sc"
    by (auto split: sum.splits)
  have r: "reviews_in rv p = reviews" by (simp add: reviews_in_def rv)
  from Cons.IH [OF rest] show ?case
    by (simp add: scan_pr_lists r)
qed

lemma scan_example:
  "scan_open 1704880800000000 (\<lambda>n. Inr [review_cr, review_ok]) [pr_open] empty_scan =
     Inr \<lparr>prs_with_changes_requested = [pr_open], prs_not_approved = [], prs_hotfix = [pr_open],
       prs_pending_review = [], scan_stuck = 1, scan_pending_release = 0\<rparr>"
  by (simp add: scan_pr_def states_of_def has_label_def empty_scan_def review_cr_def review_ok_def
      pr_open_def lower_def lower_char_def hours_def days_def)

lemma scan_example_unreviewed:
  "scan_open 1704880800000000 (\<lambda>n. Inr []) [pr_open] empty_scan =
     Inr \<lparr>prs_with_changes_requested = [], prs_not_approved = [pr_open], prs_hotfix = [pr_open],
       prs_pending_review = [pr_open], scan_stuck = 1, scan_pending_release = 0\<rparr>"
  by (simp add: scan_pr_def states_of_def has_label_def empty_scan_def
      pr_open_def lower_def lower_char_def hours_def days_def)

text \<open>
  C1 (as amended). A pull request counts as changes-requested exactly when some review of
  it, whichever reviewer wrote it and whatever that reviewer submitted later, is in state
  \<^verbatim>\<open>changes_requested\<close> (compared in lower case). This holds for \<^verbatim>\<open>is_changes_requested\<close> of
  the single-repository report and for the list \<^verbatim>\<open>prs_with_changes_requested\<close> the
  multi-repository scripts build from the open pull requests.
\<close>

theorem changes_requested_any_review:
  "(is_changes_requested reviews \<longleftrightarrow>
      (\<exists>x\<in>set reviews. lower (review_state x) = ''changes_requested'')) \<and>
   (scan_open now rv open_prs empty_scan = Inr sc \<longrightarrow>
      prs_with_changes_requested sc =
        filter (\<lambda>p. \<exists>x\<in>set (reviews_in rv p). lower (review_state x) = ''changes_requested'')
          open_prs)"
proof (intro conjI impI)
  show "is_changes_requested reviews \<longleftrightarrow>
      (\<exists>x\<in>set reviews. lower (review_state x) = ''changes_requested'')"
    by (simp add: is_changes_requested_def changes_requested_loop_iff)
next
  assume "scan_open now rv open_prs empty_scan = Inr sc"
  from scan_open_lists [OF this] show "prs_with_changes_requested sc =
        filter (\<lambda>p. \<exists>x\<in>set (reviews_in rv p). lower (review_state x) = ''changes_requested'')
          open_prs"
    by (simp add: empty_scan_def in_states_of)
qed

theorem changes_requested_any_review_witness:
  "scan_open 1704880800000000 (\<lambda>n. Inr [review_cr, review_ok]) [pr_open] empty_scan =
     Inr \<lparr>prs_with_changes_requested = [pr_open], prs_not_approved = [], prs_hotfix = [pr_open],
       prs_pending_review = [], scan_stuck = 1, scan_pending_release = 0\<rparr> \<and>
   (is_changes_requested [review_cr, review_ok] \<longleftrightarrow>
      (\<exists>x\<in>set [review_cr, review_ok]. lower (review_state x) = ''changes_requested'')) \<and>
   prs_with_changes_requested
     \<lparr>prs_with_changes_requested = [pr_open], prs_not_approved = [], prs_hotfix = [pr_open],
       prs_pending_review = [], scan_stuck = 1, scan_pending_release = 0\<rparr> =
     filter (\<lambda>p. \<exists>x\<in>set (reviews_in (\<lambda>n. Inr [review_cr, review_ok]) p).
                  lower (review_state x) = ''changes_requested'') [pr_open]"
  using scan_example
    changes_requested_any_review [of "[review_cr, review_ok]" 1704880800000000
      "\<lambda>n. Inr [review_cr, review_ok]" "[pr_open]"
      "\<lparr>prs_with_changes_requested = [pr_open], prs_not_approved = [], prs_hotfix = [pr_open],
       prs_pending_review = [], scan_stuck = 1, scan_pending_release = 0\<rparr>"]
  by blast

text \<open>
  C1 as stated fails: alice requests changes and approves afterwards. Her latest review
  is the approval, so no latest review is in state \<^verbatim>\<open>changes_requested\<close>, yet both
  \<^verbatim>\<open>is_changes_requested\<close> and the membership test of the multi-repository scripts say
  the pull request has changes requested.
\<close>

theorem changes_requested_latest_counterexample:
  "is_changes_requested [review_cr, review_ok] \<and>
   ''changes_requested'' \<in> set (states_of [review_cr, review_ok]) \<and>
   \<not> spec_changes_requested [review_cr, review_ok]"
  by (simp add: is_changes_requested_def spec_changes_requested_def states_of_def
      review_cr_def review_ok_def lower_def lower_char_def)

text \<open>
  C2 (as amended). An open pull request counts as not approved exactly when none of its
  reviews, whichever reviewer wrote it and whatever that reviewer submitted later, is in
  state \<^verbatim>\<open>approved\<close>. An open pull request without reviews is not approved and has no
  changes requested.
\<close>

theorem not_approved_no_review_approved:
  assumes "scan_open now rv open_prs empty_scan = Inr sc"
  shows "prs_not_approved sc =
           filter (\<lambda>p. \<forall>x\<in>set (reviews_in rv p). lower (review_state x) \<noteq> ''approved'')
             open_prs \<and>
         (\<forall>p\<in>set open_prs. reviews_in rv p = [] \<longrightarrow>
            p \<in> set (prs_not_approved sc) \<and> p \<notin> set (prs_with_changes_requested sc))"
proof -
  have a: "prs_not_approved sc =
      filter (\<lambda>p. \<forall>x\<in>set (reviews_in rv p). lower (review_state x) \<noteq> ''approved'') open_prs"
    using scan_open_lists [OF assms] by (simp add: empty_scan_def in_states_of)
  have b: "prs_with_changes_requested sc =
      filter (\<lambda>p. ''changes_requested'' \<in> set (states_of (reviews_in rv p))) open_prs"
    using scan_open_lists [OF assms] by (simp add: empty_scan_def)
  show ?thesis unfolding a b by (auto simp: states_of_def)
qed

theorem not_approved_no_review_approved_witness:
  "scan_open 1704880800000000 (\<lambda>n. Inr []) [pr_open] empty_scan =
     Inr \<lparr>prs_with_changes_requested = [], prs_not_approved = [pr_open], prs_hotfix = [pr_open],
       prs_pending_review = [pr_open], scan_stuck = 1, scan_pending_release = 0\<rparr> \<and>
   pr_open \<in> set [pr_open] \<and> reviews_in (\<lambda>n. Inr []) pr_open = [] \<and>
   pr_open \<in> set (prs_not_approved
     \<lparr>prs_with_changes_requested = [], prs_not_approved = [pr_open], prs_hotfix = [pr_open],
       prs_pending_review = [pr_open], scan_stuck = 1, scan_pending_release = 0\<rparr>) \<and>
   pr_open \<notin> set (prs_with_changes_requested
     \<lparr>prs_with_changes_requested = [], prs_not_approved = [pr_open], prs_hotfix = [pr_open],
       prs_pending_review = [pr_open], scan_stuck = 1, scan_pending_release = 0\<rparr>)"
proof -
  have r: "reviews_in (\<lambda>n. Inr []) pr_open = []" by (simp add: reviews_in_def)
  have m: "pr_open \<in> set [pr_open]" by simp
  from not_approved_no_review_approved [OF scan_example_unreviewed] r m scan_example_unreviewed
  show ?thesis by blast
qed

text \<open>
  C2 as stated fails: alice approves and requests changes afterwards. Her latest review
  is the request for changes, so no reviewer's latest review is an approval, yet the
  scripts find \<^verbatim>\<open>approved\<close> among the states and do not count the pull request as not
  approved.
\<close>

theorem not_approved_latest_counterexample:
  "''approved'' \<in> set (states_of [review_ok, review_cr]) \<and>
   spec_not_approved [review_ok, review_cr]"
  by (simp add: spec_not_approved_def states_of_def
      review_cr_def review_ok_def lower_def lower_char_def)

section \<open>Totals and per-member columns\<close>

lemma upd_member_sum:
  assumes "g default_stats = 0" and "\<And>v. g (f v) = g v + d"
  shows "sum_list (map (\<lambda>kv. g (snd kv)) (upd_member k f m)) =
         sum_list (map (\<lambda>kv. g (snd kv)) m) + (d::nat)"
  using assms by (induction m) auto

lemma count_authors_sum:
  assumes "g default_stats = 0" and "\<And>v. g (f v) = g v + d"
  shows "sum_list (map (\<lambda>kv. g (snd kv)) (count_authors f prs m)) =
         sum_list (map (\<lambda>kv. g (snd kv)) m) + d * length prs"
  unfolding count_authors_def
  by (induction prs arbitrary: m) (simp_all add: upd_member_sum [OF assms])

lemma set_reviews_done_sum:
  assumes "g default_stats = (0::nat)" and "\<And>v c. g (v\<lparr>reviews_done := c\<rparr>) = g v"
  shows "sum_list (map (\<lambda>kv. g (snd kv)) (set_reviews_done rd m)) =
         sum_list (map (\<lambda>kv. g (snd kv)) m)"
  unfolding set_reviews_done_def
proof (induction rd arbitrary: m)
  case Nil
  show ?case by simp
next
  case (Cons x rd)
  obtain u c where x: "x = (u, c)" by (cases x)
  have "sum_list (map (\<lambda>kv. g (snd kv)) (upd_member u (\<lambda>st. st\<lparr>reviews_done := c\<rparr>) m)) =
        sum_list (map (\<lambda>kv. g (snd kv)) m) + 0"
    using upd_member_sum [of g "\<lambda>st. st\<lparr>reviews_done := c\<rparr>" 0 u m] assms by simp
  with Cons.IH show ?case by (simp add: x)
qed

lemma build_members_sums:
  "sum_list (map (\<lambda>kv. raised (snd kv)) (build_members rt mt sc rd)) = length rt"
  "sum_list (map (\<lambda>kv. merged (snd kv)) (build_members rt mt sc rd)) = length mt"
  "sum_list (map (\<lambda>kv. changes_requested (snd kv)) (build_members rt mt sc rd)) =
     length (prs_with_changes_requested sc)"
  "sum_list (map (\<lambda>kv. not_approved (snd kv)) (build_members rt mt sc rd)) =
     length (prs_not_approved sc)"
  unfolding build_members_def
  by (simp_all add: set_reviews_done_sum count_authors_sum [where d = 0]
      count_authors_sum [where d = 1] default_stats_def)

lemma rows_of_sums:
  "sum_list (map row_raised (rows_of name m)) = sum_list (map (\<lambda>kv. raised (snd kv)) m)"
  "sum_list (map row_merged (rows_of name m)) = sum_list (map (\<lambda>kv. merged (snd kv)) m)"
  "sum_list (map row_changes_requested (rows_of name m)) =
     sum_list (map (\<lambda>kv. changes_requested (snd kv)) m)"
  "sum_list (map row_not_approved (rows_of name m)) =
     sum_list (map (\<lambda>kv. not_approved (snd kv)) m)"
  by (simp_all add: rows_of_def comp_def case_prod_unfold)

lemma aggregate_repo_totals_match:
  "totals_match a \<Longrightarrow> aggregate_repo now r open_prs closed_prs a = Inr a' \<Longrightarrow> totals_match a'"
  by (auto simp: aggregate_repo_def Let_def totals_match_def rows_of_sums build_members_sums
      split: sum.splits)

lemma process_repo_totals_match:
  "totals_match a \<Longrightarrow> process_repo now r a = Inr a' \<Longrightarrow> totals_match a'"
  by (auto simp: process_repo_def split: sum.splits dest: aggregate_repo_totals_match)

lemma main_loop_totals_match:
  "totals_match a \<Longrightarrow> main_loop now repos a = Inr a' \<Longrightarrow> totals_match a'"
proof (induction repos arbitrary: a)
  case Nil
  then show ?case by simp
next
  case (Cons r repos)
  from Cons.prems(2) obtain b where b: "process_repo now r a = Inr b"
    and rest: "main_loop now repos b = Inr a'"
    by (auto split: sum.splits)
  from Cons.IH [OF process_repo_totals_match [OF Cons.prems(1) b] rest] show ?case .
qed

lemma main_loop_example:
  "main_loop 1704880800000000 [repo_demo, repo_down] init_acc = Inr acc_demo"
  by (simp add: process_repo_def aggregate_repo_def repo_demo_def repo_down_def pr_merged_def
      today_start_def days_def raised_today_def merged_today_def empty_scan_def review_ok_def
      cycle_times_def build_members_def count_authors_def set_reviews_done_def rows_of_def
      default_stats_def init_acc_def acc_demo_def track_oldest_def)

lemma main_example:
  "main 1704880800000000 [repo_demo, repo_down] =
     Inr (Some (summarise 1704880800000000 [repo_demo, repo_down] acc_demo))"
  by (simp add: main_def main_loop_example del: main_loop.simps)

text \<open>
  C3. In every report a run produces, each of the totals of raised, merged,
  changes-requested and not-approved pull requests equals the sum of its column over all
  member rows.
\<close>

theorem totals_equal_member_sums:
  assumes "main now repos = Inr (Some rep)"
  shows "total_raised (counters rep) = sum_list (map row_raised (member_rows (counters rep))) \<and>
         total_merged (counters rep) = sum_list (map row_merged (member_rows (counters rep))) \<and>
         total_changes_requested (counters rep) =
           sum_list (map row_changes_requested (member_rows (counters rep))) \<and>
         total_not_approved (counters rep) =
           sum_list (map row_not_approved (member_rows (counters rep)))"
proof -
  from assms obtain a where a: "main_loop now repos init_acc = Inr a"
    and rep: "rep = summarise now repos a"
    by (auto simp: main_def split: if_splits sum.splits)
  have "totals_match init_acc" by (simp add: totals_match_def init_acc_def)
  from main_loop_totals_match [OF this a] show ?thesis
    by (simp add: rep summarise_def totals_match_def)
qed


theorem totals_equal_member_sums_witness:
  "main 1704880800000000 [repo_demo, repo_down] =
     Inr (Some (summarise 1704880800000000 [repo_demo, repo_down] acc_demo)) \<and>
   total_raised (counters (summarise 1704880800000000 [repo_demo, repo_down] acc_demo)) =
     sum_list (map row_raised
       (member_rows (counters (summarise 1704880800000000 [repo_demo, repo_down] acc_demo)))) \<and>
   total_raised (counters (summarise 1704880800000000 [repo_demo, repo_down] acc_demo)) = 1"
  using totals_equal_member_sums [OF main_example] main_example
  by (simp add: summarise_def acc_demo_def)

section \<open>Repositories whose retrieval fails\<close>

lemma process_repo_skips:
  "retrieval_fails r \<Longrightarrow> process_repo now r a = Inr a"
  by (auto simp: retrieval_fails_def process_repo_def split: sum.splits)

lemma main_loop_filter:
  "main_loop now repos a = main_loop now (filter (\<lambda>r. \<not> retrieval_fails r) repos) a"
proof (induction repos arbitrary: a)
  case Nil
  show ?case by simp
next
  case (Cons r repos)
  show ?case
  proof (cases "retrieval_fails r")
    case True
    then show ?thesis by (simp add: process_repo_skips Cons.IH)
  next
    case False
    then show ?thesis by (simp add: Cons.IH split: sum.splits)
  qed
qed

lemma scan_open_total:
  "(\<And>n. \<exists>rs. rv n = Inr rs) \<Longrightarrow> \<exists>sc. scan_open now rv ps s = Inr sc"
proof (induction ps arbitrary: s)
  case Nil
  show ?case by simp
next
  case (Cons p ps)
  from Cons.prems obtain rs where "rv (pr_number p) = Inr rs" by blast
  with Cons.IH [OF Cons.prems] show ?case by simp
qed

lemma count_reviews_total:
  "(\<And>n. \<exists>rs. rv n = Inr rs) \<Longrightarrow> \<exists>m'. count_reviews rv ids m = Inr m'"
proof (induction ids arbitrary: m)
  case Nil
  show ?case by simp
next
  case (Cons i ids)
  from Cons.prems obtain rs where "rv i = Inr rs" by blast
  with Cons.IH [OF Cons.prems] show ?case by simp
qed

lemma process_repo_total:
  assumes "\<not> retrieval_fails r \<longrightarrow> (\<forall>n. \<exists>rs. reviews_result r n = Inr rs)"
  shows "\<exists>a'. process_repo now r a = Inr a'"
proof (cases "retrieval_fails r")
  case True
  then show ?thesis by (simp add: process_repo_skips)
next
  case False
  with assms have rv: "\<And>n. \<exists>rs. reviews_result r n = Inr rs" by blast
  from False obtain open_prs closed_prs where oc: "open_result r = Inr open_prs"
    "closed_result r = Inr closed_prs"
    by (auto simp: retrieval_fails_def split: sum.splits)
  obtain sc where sc: "scan_open now (reviews_result r) open_prs empty_scan = Inr sc"
    using scan_open_total [of "reviews_result r", OF rv] by blast
  obtain m where m: "count_reviews (reviews_result r)
      (map pr_number (filter (raised_today (today_start now)) (open_prs @ closed_prs) @
         filter (merged_today (today_start now)) closed_prs)) [] = Inr m"
    using count_reviews_total [of "reviews_result r", OF rv] by blast
  show ?thesis
    using sc m by (simp add: process_repo_def oc aggregate_repo_def Let_def)
qed

lemma main_loop_total:
  assumes "\<forall>r\<in>set repos. \<not> retrieval_fails r \<longrightarrow> (\<forall>n. \<exists>rs. reviews_result r n = Inr rs)"
  shows "\<exists>a'. main_loop now repos a = Inr a'"
  using assms
proof (induction repos arbitrary: a)
  case Nil
  show ?case by simp
next
  case (Cons r repos)
  from Cons.prems have "\<not> retrieval_fails r \<longrightarrow> (\<forall>n. \<exists>rs. reviews_result r n = Inr rs)" by simp
  from process_repo_total [OF this] obtain b where b: "process_repo now r a = Inr b" by blast
  from Cons.IH [of b] Cons.prems obtain a' where "main_loop now repos b = Inr a'" by auto
  with b show ?case by simp
qed

text \<open>
  C4 (as amended). A repository for which one of the two \<^verbatim>\<open>get_prs\<close> calls raises
  leaves every accumulated variable as it was: no total changes, no member row is added,
  the oldest open date is not touched. The loop over all repositories gives what the loop
  over the repositories without such a failure gives, and when no review lookup of those
  repositories raises, the run ends with the report built from them.
\<close>

theorem failed_repositories_are_skipped:
  "(retrieval_fails r \<longrightarrow> process_repo now r a = Inr a) \<and>
   main_loop now repos a = main_loop now (filter (\<lambda>r. \<not> retrieval_fails r) repos) a \<and>
   (repos \<noteq> [] \<and>
    (\<forall>r\<in>set repos. \<not> retrieval_fails r \<longrightarrow> (\<forall>n. \<exists>rs. reviews_result r n = Inr rs)) \<longrightarrow>
      (\<exists>a'. main_loop now (filter (\<lambda>r. \<not> retrieval_fails r) repos) init_acc = Inr a' \<and>
            main now repos = Inr (Some (summarise now repos a'))))"
proof (intro conjI impI)
  show "process_repo now r a = Inr a" if "retrieval_fails r"
    using that by (rule process_repo_skips)
  show "main_loop now repos a = main_loop now (filter (\<lambda>r. \<not> retrieval_fails r) repos) a"
    by (rule main_loop_filter)
next
  assume h: "repos \<noteq> [] \<and>
    (\<forall>r\<in>set repos. \<not> retrieval_fails r \<longrightarrow> (\<forall>n. \<exists>rs. reviews_result r n = Inr rs))"
  then obtain a' where a': "main_loop now repos init_acc = Inr a'"
    using main_loop_total [of repos now init_acc] by blast
  then have "main_loop now (filter (\<lambda>r. \<not> retrieval_fails r) repos) init_acc = Inr a'"
    using main_loop_filter [of now repos init_acc] by simp
  moreover have "main now repos = Inr (Some (summarise now repos a'))"
    using h a' by (simp add: main_def)
  ultimately show "\<exists>a'. main_loop now (filter (\<lambda>r. \<not> retrieval_fails r) repos) init_acc = Inr a' \<and>
            main now repos = Inr (Some (summarise now repos a'))" by blast
qed

theorem failed_repositories_are_skipped_witness:
  "retrieval_fails repo_down \<and>
   process_repo 1704880800000000 repo_down acc_demo = Inr acc_demo \<and>
   [repo_demo, repo_down] \<noteq> [] \<and>
   (\<exists>a'. main_loop 1704880800000000
            (filter (\<lambda>r. \<not> retrieval_fails r) [repo_demo, repo_down]) init_acc = Inr a' \<and>
         main 1704880800000000 [repo_demo, repo_down] =
           Inr (Some (summarise 1704880800000000 [repo_demo, repo_down] a')))"
proof -
  have f: "retrieval_fails repo_down"
    by (simp add: retrieval_fails_def repo_down_def)
  have h: "\<forall>r\<in>set [repo_demo, repo_down].
      \<not> retrieval_fails r \<longrightarrow> (\<forall>n. \<exists>rs. reviews_result r n = Inr rs)"
    by (simp add: repo_demo_def repo_down_def)
  have n: "[repo_demo, repo_down] \<noteq> []" by simp
  from failed_repositories_are_skipped [of repo_down 1704880800000000 acc_demo
      "[repo_demo, repo_down]"] f h n
  show ?thesis by blast
qed

text \<open>
  C4 as stated fails: \<^verbatim>\<open>get_reviews\<close> is called outside the \<^verbatim>\<open>try\<close>. In a run over a
  repository whose \<^verbatim>\<open>get_prs\<close> call for the closed pull requests raises and a repository
  whose pull requests are retrieved but whose review lookup raises, the exception leaves
  \<^verbatim>\<open>main\<close> and no report is produced.
\<close>

theorem review_failure_aborts_run_counterexample:
  "retrieval_fails repo_down \<and> \<not> retrieval_fails repo_bad \<and>
   main 1704880800000000 [repo_down, repo_bad] = Inl RequestException"
  by (simp add: retrieval_fails_def main_def process_repo_def aggregate_repo_def repo_down_def
      repo_bad_def pr_open_def empty_scan_def)

section \<open>Blocker owners\<close>

text \<open>
  C8 (as amended). In every report of the multi-repository scripts the field
  \<^verbatim>\<open>blocker_owners\<close> is the placeholder \<^verbatim>\<open>"-"\<close>.
\<close>

theorem blocker_owners_is_placeholder:
  "main now repos = Inr (Some rep) \<Longrightarrow> blocker_owners rep = ''-''"
  by (auto simp: main_def summarise_def split: if_splits sum.splits)

theorem blocker_owners_is_placeholder_witness:
  "main 1704880800000000 [repo_demo, repo_down] =
     Inr (Some (summarise 1704880800000000 [repo_demo, repo_down] acc_demo)) \<and>
   blocker_owners (summarise 1704880800000000 [repo_demo, repo_down] acc_demo) = ''-''"
  using blocker_owners_is_placeholder [OF main_example] main_example by blast

text \<open>
  C8 as stated fails for the single-repository report, which joins the authors of the
  open pull requests labelled hotfix or critical: with one such pull request by bob the
  field is \<^verbatim>\<open>bob\<close>.
\<close>

theorem blocker_owners_daily_counterexample:
  "daily_blocker_owners sorted_list_of_set [pr_open] = ''bob'' \<and>
   daily_blocker_owners sorted_list_of_set [pr_open] \<noteq> ''-''"
  by code_simp

section \<open>Stale pull request owners\<close>

lemma stale_fold:
  "fold (\<lambda>p s. if now - pr_created_at p > days 7 then insert (pr_user p) s else s) prs S =
     S \<union> pr_user ` {p \<in> set prs. now - pr_created_at p > days 7}"
  by (induction prs arbitrary: S) auto

lemma stale_loop_eq: "stale_loop now repos S = S \<union> stale_owners now repos"
  by (induction repos arbitrary: S) (auto simp: stale_owners_def stale_fold split: sum.splits)

lemma finite_stale_owners: "finite (stale_owners now repos)"
  by (auto simp: stale_owners_def split: sum.splits)

text \<open>
  C9 (as amended). In every report of the multi-repository scripts
  \<^verbatim>\<open>owners_stale_prs\<close> is the sorted list, without duplicates, of the authors of the pull
  requests open for more than 7 days in the repositories whose open pull requests could
  be retrieved, joined with \<^verbatim>\<open>", "\<close>, and \<^verbatim>\<open>"-"\<close> when there is no such author. A
  repository whose closed pull requests could not be retrieved is among them.
\<close>

theorem stale_owners_sorted_joined:
  assumes "main now repos = Inr (Some rep)"
  shows "sorted (sorted_list_of_set (stale_owners now repos)) \<and>
         distinct (sorted_list_of_set (stale_owners now repos)) \<and>
         set (sorted_list_of_set (stale_owners now repos)) = stale_owners now repos \<and>
         owners_stale_prs rep =
           (if stale_owners now repos = {} then ''-''
            else join '', '' (sorted_list_of_set (stale_owners now repos)))"
proof -
  from assms have rep: "rep = summarise now repos (counters rep)"
    by (auto simp: main_def summarise_def split: if_splits sum.splits)
  have "owners_stale_prs rep =
           (if stale_owners now repos = {} then ''-''
            else join '', '' (sorted_list_of_set (stale_owners now repos)))"
    by (subst rep) (simp add: summarise_def stale_loop_eq)
  then show ?thesis by (simp add: finite_stale_owners)
qed

lemma stale_owners_example:
  "stale_owners 1704880800000000 [repo_demo, repo_down] = {''bob''}"
  by (auto simp: stale_owners_def repo_demo_def repo_down_def pr_open_def days_def)

theorem stale_owners_sorted_joined_witness:
  "main 1704880800000000 [repo_demo, repo_down] =
     Inr (Some (summarise 1704880800000000 [repo_demo, repo_down] acc_demo)) \<and>
   owners_stale_prs (summarise 1704880800000000 [repo_demo, repo_down] acc_demo) = ''bob''"
  using stale_owners_sorted_joined [OF main_example] main_example
  by (simp add: stale_owners_example)

text \<open>
  C9 as stated fails: the retrieval of the closed pull requests of \<open>repo_down\<close> raises,
  so the main loop skips the repository and the run is the run over \<open>repo_demo\<close> alone,
  which has no stale pull request. The second loop retrieves the open pull requests of
  \<open>repo_down\<close> again and reports bob, the author of its stale pull request.
\<close>

theorem stale_owners_skipped_repo_counterexample:
  "main_loop 1704880800000000 [repo_demo, repo_down] init_acc =
     main_loop 1704880800000000 [repo_demo] init_acc \<and>
   retrieval_fails repo_down \<and>
   stale_owners 1704880800000000 (filter (\<lambda>r. \<not> retrieval_fails r) [repo_demo, repo_down]) = {} \<and>
   main 1704880800000000 [repo_demo, repo_down] =
     Inr (Some (summarise 1704880800000000 [repo_demo, repo_down] acc_demo)) \<and>
   owners_stale_prs (summarise 1704880800000000 [repo_demo, repo_down] acc_demo) = ''bob''"
proof -
  have f: "retrieval_fails repo_down" "\<not> retrieval_fails repo_demo"
    by (simp_all add: retrieval_fails_def repo_down_def repo_demo_def)
  have l: "main_loop 1704880800000000 [repo_demo, repo_down] init_acc =
     main_loop 1704880800000000 [repo_demo] init_acc"
    using main_loop_filter [of 1704880800000000 "[repo_demo, repo_down]" init_acc] f by simp
  have e: "stale_owners 1704880800000000
      (filter (\<lambda>r. \<not> retrieval_fails r) [repo_demo, repo_down]) = {}"
    using f by (simp add: stale_owners_def repo_demo_def)
  have o: "owners_stale_prs (summarise 1704880800000000 [repo_demo, repo_down] acc_demo) = ''bob''"
    by (simp add: summarise_def stale_loop_eq stale_owners_example)
  from f l e o main_example show ?thesis by blast
qed

section \<open>Reviews done\<close>

text \<open>
  C5 does not hold of the code. The pull request of \<open>repo_demo\<close> was raised and merged
  today, so it is twice in the list whose reviews are counted, and the single review of
  alice gives her \<^verbatim>\<open>reviews_done = 2\<close>; counting each pull request once gives 1.
\<close>

theorem reviews_done_counted_twice:
  "main_loop 1704880800000000 [repo_demo] init_acc = Inr acc_demo \<and>
   todays_prs 1704880800000000 [] [pr_merged] = [pr_merged, pr_merged] \<and>
   map (\<lambda>row. (row_member row, row_reviews_done row)) (member_rows acc_demo) =
     [(''bob'', 0), (''alice'', 2)] \<and>
   spec_reviews_done (reviews_result repo_demo) (todays_prs 1704880800000000 [] [pr_merged])
     ''alice'' = 1"
proof -
  have f: "retrieval_fails repo_down" "\<not> retrieval_fails repo_demo"
    by (simp_all add: retrieval_fails_def repo_down_def repo_demo_def)
  have l: "main_loop 1704880800000000 [repo_demo] init_acc = Inr acc_demo"
    using main_loop_filter [of 1704880800000000 "[repo_demo, repo_down]" init_acc] f
      main_loop_example by simp
  have t: "todays_prs 1704880800000000 [] [pr_merged] = [pr_merged, pr_merged]"
    by (simp add: todays_prs_def raised_today_def merged_today_def today_start_def days_def
        pr_merged_def)
  have s: "spec_reviews_done (reviews_result repo_demo) [pr_merged, pr_merged] ''alice'' = 1"
    by (simp add: spec_reviews_done_def reviews_in_def repo_demo_def pr_merged_def review_ok_def)
  have m: "map (\<lambda>row. (row_member row, row_reviews_done row)) (member_rows acc_demo) =
     [(''bob'', 0), (''alice'', 2)]"
    by (simp add: acc_demo_def)
  from l t s m show ?thesis by simp
qed

section \<open>Rows of reviewers\<close>

lemma map_of_upd_member:
  "map_of (upd_member k f m) u = (if u = k then Some (f (stats_of m k)) else map_of m u)"
  by (induction m) (auto simp: stats_of_def)

lemma stats_of_upd_member:
  "stats_of (upd_member k f m) u = (if u = k then f (stats_of m k) else stats_of m u)"
  by (simp add: stats_of_def map_of_upd_member)

lemma map_fst_upd_member:
  "map fst (upd_member k f m) = (if k \<in> set (map fst m) then map fst m else map fst m @ [k])"
proof (induction m)
  case Nil
  show ?case by simp
next
  case (Cons x m)
  obtain a b where x: "x = (a, b)" by (cases x)
  show ?case using Cons.IH by (cases "a = k") (simp_all add: x)
qed

lemma keys_upd_member: "fst ` set (upd_member k f m) = insert k (fst ` set m)"
proof -
  have "set (map fst (upd_member k f m)) = insert k (set (map fst m))"
    by (simp add: map_fst_upd_member insert_absorb)
  then show ?thesis by (simp only: set_map)
qed

lemma keys_count_authors:
  "fst ` set (count_authors f prs m) = fst ` set m \<union> pr_user ` set prs"
  unfolding count_authors_def
  by (induction prs arbitrary: m) (auto simp: keys_upd_member)

lemma stats_of_count_authors_other:
  "u \<notin> pr_user ` set prs \<Longrightarrow> stats_of (count_authors f prs m) u = stats_of m u"
  unfolding count_authors_def
  by (induction prs arbitrary: m) (auto simp: stats_of_upd_member)

lemma keys_set_reviews_done:
  "fst ` set (set_reviews_done rd m) = fst ` set m \<union> fst ` set rd"
  unfolding set_reviews_done_def
proof (induction rd arbitrary: m)
  case Nil
  show ?case by simp
next
  case (Cons x rd)
  obtain k c where x: "x = (k, c)" by (cases x)
  show ?case by (simp add: x Cons.IH keys_upd_member)
qed

lemma stats_of_set_reviews_done_field:
  assumes "\<And>v c. g (v\<lparr>reviews_done := c\<rparr>) = g v"
  shows "g (stats_of (set_reviews_done rd m) u) = g (stats_of m u)"
  unfolding set_reviews_done_def
  by (induction rd arbitrary: m) (auto simp: stats_of_upd_member assms)

lemma stats_of_set_reviews_done_same:
  "u \<notin> fst ` set rd \<Longrightarrow> stats_of (set_reviews_done rd m) u = stats_of m u"
  unfolding set_reviews_done_def
  by (induction rd arbitrary: m) (auto simp: stats_of_upd_member)

lemma reviews_done_positive:
  assumes "\<forall>(k, c)\<in>set rd. 0 < c" and "u \<in> fst ` set rd"
  shows "0 < reviews_done (stats_of (set_reviews_done rd m) u)"
  using assms
proof (induction rd arbitrary: m)
  case Nil
  then show ?case by simp
next
  case (Cons x rd)
  obtain k c where x: "x = (k, c)" by (cases x)
  let ?m1 = "upd_member k (\<lambda>st. st\<lparr>reviews_done := c\<rparr>) m"
  have step: "set_reviews_done (x # rd) m = set_reviews_done rd ?m1"
    by (simp add: set_reviews_done_def x)
  show ?case
  proof (cases "u \<in> fst ` set rd")
    case True
    with Cons.IH [of ?m1] Cons.prems(1) show ?thesis by (simp add: step)
  next
    case False
    with Cons.prems(2) have uk: "u = k" by (auto simp: x)
    from False have nk: "k \<notin> fst ` set rd" by (simp add: uk)
    from Cons.prems(1) have "0 < c" by (simp add: x)
    then show ?thesis
      by (simp add: step uk stats_of_set_reviews_done_same [OF nk] stats_of_upd_member)
  qed
qed

lemma map_fst_bump:
  "map fst (bump k m) = (if k \<in> set (map fst m) then map fst m else map fst m @ [k])"
proof (induction m)
  case Nil
  show ?case by simp
next
  case (Cons x m)
  obtain a b where x: "x = (a, b)" by (cases x)
  show ?case using Cons.IH by (cases "a = k") (simp_all add: x)
qed

lemma keys_bump: "fst ` set (bump k m) = insert k (fst ` set m)"
proof -
  have "set (map fst (bump k m)) = insert k (set (map fst m))"
    by (simp add: map_fst_bump insert_absorb)
  then show ?thesis by (simp only: set_map)
qed

lemma bump_positive: "\<forall>(k, c)\<in>set m. 0 < c \<Longrightarrow> \<forall>(k, c)\<in>set (bump u m). 0 < c"
  by (induction m) (auto split: if_splits)

lemma fold_bump:
  "\<forall>(k, c)\<in>set m. 0 < c \<Longrightarrow>
     fst ` set (fold (\<lambda>r. bump (review_user r)) reviews m) = fst ` set m \<union> review_user ` set reviews \<and>
     (\<forall>(k, c)\<in>set (fold (\<lambda>r. bump (review_user r)) reviews m). 0 < c)"
proof (induction reviews arbitrary: m)
  case Nil
  then show ?case by simp
next
  case (Cons x reviews)
  from Cons.IH [OF bump_positive [OF Cons.prems]] show ?case
    by (auto simp: keys_bump)
qed

lemma count_reviews_keys:
  assumes "count_reviews rv ids m = Inr rd" and "\<forall>(k, c)\<in>set m. 0 < c"
  shows "(\<forall>(k, c)\<in>set rd. 0 < c) \<and>
         (\<forall>i\<in>set ids. \<forall>rs. rv i = Inr rs \<longrightarrow> review_user ` set rs \<subseteq> fst ` set rd) \<and>
         fst ` set m \<subseteq> fst ` set rd"
  using assms
proof (induction ids arbitrary: m)
  case Nil
  then show ?case by simp
next
  case (Cons i ids)
  from Cons.prems(1) obtain reviews where rv: "rv i = Inr reviews"
    and rest: "count_reviews rv ids (fold (\<lambda>r. bump (review_user r)) reviews m) = Inr rd"
    by (auto split: sum.splits)
  note fb = fold_bump [OF Cons.prems(2), of reviews]
  from Cons.IH [OF rest] fb
  have ih: "(\<forall>(k, c)\<in>set rd. 0 < c)"
    "(\<forall>i\<in>set ids. \<forall>rs. rv i = Inr rs \<longrightarrow> review_user ` set rs \<subseteq> fst ` set rd)"
    "fst ` set m \<union> review_user ` set reviews \<subseteq> fst ` set rd"
    by auto
  show ?case using ih rv by auto
qed

lemma row_of_member:
  assumes "u \<in> fst ` set m"
  shows "\<lparr>row_member = u, row_raised = raised (stats_of m u), row_merged = merged (stats_of m u),
           row_changes_requested = changes_requested (stats_of m u),
           row_not_approved = not_approved (stats_of m u),
           row_reviews_done = reviews_done (stats_of m u), row_repo = name\<rparr> \<in> set (rows_of name m)"
proof -
  from assms obtain v where v: "map_of m u = Some v"
    by (metis map_of_eq_None_iff not_Some_eq)
  then have "(u, v) \<in> set m" by (rule map_of_SomeD)
  moreover have "stats_of m u = v" by (simp add: stats_of_def v)
  ultimately show ?thesis by (force simp: rows_of_def)
qed

lemma stats_of_Nil: "stats_of [] u = default_stats"
  by (simp add: stats_of_def)

lemma build_members_row:
  assumes "u \<in> fst ` set rd" and "\<forall>(k, c)\<in>set rd. 0 < c"
  shows "\<exists>row\<in>set (rows_of name (build_members rt mt sc rd)).
           row_member row = u \<and> row_repo row = name \<and> 0 < row_reviews_done row \<and>
           (u \<notin> pr_user ` (set rt \<union> set mt \<union> set (prs_with_changes_requested sc) \<union>
                             set (prs_not_approved sc)) \<longrightarrow>
              row_raised row = 0 \<and> row_merged row = 0 \<and> row_changes_requested row = 0 \<and>
              row_not_approved row = 0)"
proof -
  let ?M = "build_members rt mt sc rd"
  let ?row = "\<lparr>row_member = u, row_raised = raised (stats_of ?M u),
    row_merged = merged (stats_of ?M u),
    row_changes_requested = changes_requested (stats_of ?M u),
    row_not_approved = not_approved (stats_of ?M u),
    row_reviews_done = reviews_done (stats_of ?M u), row_repo = name\<rparr>"
  have "u \<in> fst ` set ?M"
    using assms(1) by (simp add: build_members_def keys_set_reviews_done)
  then have in_rows: "?row \<in> set (rows_of name ?M)" by (rule row_of_member)
  have pos: "0 < reviews_done (stats_of ?M u)"
    unfolding build_members_def by (rule reviews_done_positive [OF assms(2) assms(1)])
  have zero: "stats_of ?M u = (stats_of ?M u)\<lparr>reviews_done := reviews_done (stats_of ?M u)\<rparr>"
    by simp
  have fields: "raised (stats_of ?M u) = 0 \<and> merged (stats_of ?M u) = 0 \<and>
      changes_requested (stats_of ?M u) = 0 \<and> not_approved (stats_of ?M u) = 0"
    if "u \<notin> pr_user ` (set rt \<union> set mt \<union> set (prs_with_changes_requested sc) \<union>
                             set (prs_not_approved sc))"
  proof -
    from that have n: "u \<notin> pr_user ` set rt" "u \<notin> pr_user ` set mt"
      "u \<notin> pr_user ` set (prs_with_changes_requested sc)"
      "u \<notin> pr_user ` set (prs_not_approved sc)"
      by auto
    show ?thesis
      unfolding build_members_def
      by (simp add: stats_of_set_reviews_done_field stats_of_count_authors_other n stats_of_Nil
          default_stats_def)
  qed
  show ?thesis
    using in_rows pos fields by (intro bexI [of _ ?row]) auto
qed

lemma process_repo_example:
  "process_repo 1704880800000000 repo_demo init_acc = Inr acc_demo"
  by (simp add: process_repo_def aggregate_repo_def repo_demo_def pr_merged_def
      today_start_def days_def raised_today_def merged_today_def empty_scan_def review_ok_def
      cycle_times_def build_members_def count_authors_def set_reviews_done_def rows_of_def
      default_stats_def init_acc_def acc_demo_def track_oldest_def)

text \<open>
  C10. For every repository that is processed, every login that reviewed a pull request
  raised or merged today gets a member row of that repository, appended to the rows, with
  a positive \<^verbatim>\<open>reviews_done\<close>; when the login authored none of the pull requests
  counted for the repository, the four other counters of the row are 0.
\<close>

theorem reviewer_gets_member_row:
  assumes "open_result r = Inr open_prs" and "closed_result r = Inr closed_prs"
    and "process_repo now r a = Inr a'"
    and "p \<in> set (todays_prs now open_prs closed_prs)"
    and "x \<in> set (reviews_in (reviews_result r) p)"
  shows "\<exists>rows. member_rows a' = member_rows a @ rows \<and>
           (\<exists>row\<in>set rows. row_member row = review_user x \<and> row_repo row = repo_name r \<and>
              0 < row_reviews_done row \<and>
              (review_user x \<notin> pr_user ` set (counted_prs now r open_prs closed_prs) \<longrightarrow>
                 row_raised row = 0 \<and> row_merged row = 0 \<and> row_changes_requested row = 0 \<and>
                 row_not_approved row = 0))"
proof -
  let ?rt = "filter (raised_today (today_start now)) (open_prs @ closed_prs)"
  let ?mt = "filter (merged_today (today_start now)) closed_prs"
  let ?rv = "reviews_result r"
  from assms(3) have agg: "aggregate_repo now r open_prs closed_prs a = Inr a'"
    by (simp add: process_repo_def assms(1,2))
  then obtain sc rd where sc: "scan_open now ?rv open_prs empty_scan = Inr sc"
    and rd: "count_reviews ?rv (map pr_number (?rt @ ?mt)) [] = Inr rd"
    and a': "member_rows a' = member_rows a @ rows_of (repo_name r) (build_members ?rt ?mt sc rd)"
    by (auto simp: aggregate_repo_def Let_def split: sum.splits)
  from assms(5) obtain rs where rs: "?rv (pr_number p) = Inr rs" and x: "x \<in> set rs"
    by (cases "?rv (pr_number p)") (simp_all add: reviews_in_def)
  from assms(4) have pin: "pr_number p \<in> set (map pr_number (?rt @ ?mt))"
    by (auto simp: todays_prs_def)
  from count_reviews_keys [OF rd] have pos: "\<forall>(k, c)\<in>set rd. 0 < c"
    and keys: "\<forall>i\<in>set (map pr_number (?rt @ ?mt)). \<forall>rs. ?rv i = Inr rs \<longrightarrow>
        review_user ` set rs \<subseteq> fst ` set rd"
    by simp_all
  from keys pin rs x have u: "review_user x \<in> fst ` set rd" by blast
  from scan_open_lists [OF sc] have lists:
    "prs_with_changes_requested sc =
       filter (\<lambda>p. ''changes_requested'' \<in> set (states_of (reviews_in ?rv p))) open_prs"
    "prs_not_approved sc = filter (\<lambda>p. ''approved'' \<notin> set (states_of (reviews_in ?rv p))) open_prs"
    by (simp_all add: empty_scan_def)
  have sub: "set ?rt \<union> set ?mt \<union> set (prs_with_changes_requested sc) \<union> set (prs_not_approved sc)
      = set (counted_prs now r open_prs closed_prs)"
    unfolding lists counted_prs_def todays_prs_def by auto
  from build_members_row [OF u pos, of "repo_name r" ?rt ?mt sc]
  show ?thesis unfolding a' sub by blast
qed

theorem reviewer_gets_member_row_witness:
  "process_repo 1704880800000000 repo_demo init_acc = Inr acc_demo \<and>
   pr_merged \<in> set (todays_prs 1704880800000000 [] [pr_merged]) \<and>
   review_ok \<in> set (reviews_in (reviews_result repo_demo) pr_merged) \<and>
   review_user review_ok \<notin> pr_user ` set (counted_prs 1704880800000000 repo_demo [] [pr_merged]) \<and>
   (\<exists>rows row. member_rows acc_demo = member_rows init_acc @ rows \<and> row \<in> set rows \<and>
      row_member row = ''alice'' \<and> row_repo row = ''demo'' \<and> 0 < row_reviews_done row \<and>
      row_raised row = 0 \<and> row_merged row = 0 \<and> row_changes_requested row = 0 \<and>
      row_not_approved row = 0)"
proof -
  have o: "open_result repo_demo = Inr []" and c: "closed_result repo_demo = Inr [pr_merged]"
    by (simp_all add: repo_demo_def)
  have p: "pr_merged \<in> set (todays_prs 1704880800000000 [] [pr_merged])"
    by (simp add: todays_prs_def raised_today_def merged_today_def today_start_def days_def
        pr_merged_def)
  have x: "review_ok \<in> set (reviews_in (reviews_result repo_demo) pr_merged)"
    by (simp add: reviews_in_def repo_demo_def pr_merged_def)
  have n: "review_user review_ok \<notin>
      pr_user ` set (counted_prs 1704880800000000 repo_demo [] [pr_merged])"
    by (simp add: counted_prs_def todays_prs_def review_ok_def pr_merged_def)
  have u: "review_user review_ok = ''alice''" and d: "repo_name repo_demo = ''demo''"
    by (simp_all add: review_ok_def repo_demo_def)
  from reviewer_gets_member_row [OF o c process_repo_example p x] n
  have "\<exists>rows row. member_rows acc_demo = member_rows init_acc @ rows \<and> row \<in> set rows \<and>
      row_member row = ''alice'' \<and> row_repo row = ''demo'' \<and> 0 < row_reviews_done row \<and>
      row_raised row = 0 \<and> row_merged row = 0 \<and> row_changes_requested row = 0 \<and>
      row_not_approved row = 0"
    unfolding u d by blast
  with process_repo_example p x n show ?thesis by blast
qed

section \<open>The loop as a reduction\<close>

lemma oldest_spec_None [simp]: "oldest_spec x None = x" "oldest_spec None y = y"
  by (simp_all add: oldest_spec_def split: option.splits)

lemma oldest_spec_assoc:
  "oldest_spec (oldest_spec x y) z = oldest_spec x (oldest_spec y z)"
  by (simp add: oldest_spec_def min.assoc split: option.splits)

lemma oldest_spec_commute: "oldest_spec x y = oldest_spec y x"
  by (simp add: oldest_spec_def min.commute split: option.splits)

lemma oldest_spec_left_commute:
  "oldest_spec x (oldest_spec y z) = oldest_spec y (oldest_spec x z)"
  by (simp add: oldest_spec_def min.left_commute min.commute split: option.splits)

lemma track_oldest_spec:
  "track_oldest open_prs oldest = oldest_spec oldest (track_oldest open_prs None)"
  by (cases open_prs; cases oldest) (auto simp: track_oldest_def oldest_spec_def Let_def min_def)

lemma reduce_spec_init_acc [simp]: "reduce_spec a init_acc = a"
  by (simp add: reduce_spec_def init_acc_def)

lemma reduce_spec_assoc:
  "reduce_spec (reduce_spec a b) c = reduce_spec a (reduce_spec b c)"
  by (simp add: reduce_spec_def oldest_spec_assoc)

lemma same_totals_commute: "same_totals (reduce_spec a b) (reduce_spec b a)"
  by (simp add: same_totals_def reduce_spec_def oldest_spec_commute)

lemma same_totals_refl: "same_totals a a"
  by (simp add: same_totals_def)

lemma same_totals_insert:
  assumes "same_totals b0 a0" and "b0 = reduce_spec b1 b2"
  shows "same_totals (reduce_spec b1 (reduce_spec d b2)) (reduce_spec d a0)"
proof -
  from assms have s: "same_totals (reduce_spec b1 b2) a0" by simp
  then have o: "oldest_spec (oldest_open_date b1) (oldest_open_date b2) = oldest_open_date a0"
    by (simp add: same_totals_def reduce_spec_def)
  have "oldest_spec (oldest_open_date b1) (oldest_spec (oldest_open_date d) (oldest_open_date b2))
      = oldest_spec (oldest_open_date d) (oldest_open_date a0)"
    unfolding o [symmetric] by (rule oldest_spec_left_commute)
  moreover from s have "mset (review_cycle_times b1) + mset (review_cycle_times b2) =
      mset (review_cycle_times a0)"
    by (simp add: same_totals_def reduce_spec_def)
  moreover from s have "total_raised b1 + total_raised b2 = total_raised a0"
    "total_merged b1 + total_merged b2 = total_merged a0"
    "total_changes_requested b1 + total_changes_requested b2 = total_changes_requested a0"
    "total_not_approved b1 + total_not_approved b2 = total_not_approved a0"
    "total_hotfix b1 + total_hotfix b2 = total_hotfix a0"
    "total_pending_24h b1 + total_pending_24h b2 = total_pending_24h a0"
    "pr_stuck b1 + pr_stuck b2 = pr_stuck a0"
    "pending_release b1 + pending_release b2 = pending_release a0"
    by (simp_all add: same_totals_def reduce_spec_def)
  ultimately show ?thesis
    by (simp add: same_totals_def reduce_spec_def)
qed

lemma aggregate_repo_reduce:
  "aggregate_repo now r open_prs closed_prs a =
     (case aggregate_repo now r open_prs closed_prs init_acc of
        Inl e \<Rightarrow> Inl e
      | Inr d \<Rightarrow> Inr (reduce_spec a d))"
  by (simp add: aggregate_repo_def Let_def reduce_spec_def init_acc_def
      track_oldest_spec [of open_prs "oldest_open_date a"] split: sum.splits)

lemma process_repo_reduce:
  "process_repo now r a =
     (case process_repo now r init_acc of Inl e \<Rightarrow> Inl e | Inr d \<Rightarrow> Inr (reduce_spec a d))"
  using aggregate_repo_reduce [of now r _ _ a]
  by (simp add: process_repo_def split: sum.splits)

lemma main_loop_append:
  "main_loop now (xs @ ys) a =
     (case main_loop now xs a of Inl e \<Rightarrow> Inl e | Inr a' \<Rightarrow> main_loop now ys a')"
  by (induction xs arbitrary: a) (simp_all split: sum.splits)

lemma main_loop_reduce:
  "main_loop now xs a =
     (case main_loop now xs init_acc of Inl e \<Rightarrow> Inl e | Inr d \<Rightarrow> Inr (reduce_spec a d))"
proof (induction xs arbitrary: a)
  case Nil
  show ?case by simp
next
  case (Cons r rs)
  show ?case
  proof (cases "process_repo now r init_acc")
    case (Inl e)
    then show ?thesis using process_repo_reduce [of now r a] by simp
  next
    case (Inr d)
    then have a: "process_repo now r a = Inr (reduce_spec a d)"
      using process_repo_reduce [of now r a] by simp
    show ?thesis
    proof (cases "main_loop now rs init_acc")
      case (Inl e)
      then show ?thesis
        using Cons.IH [of "reduce_spec a d"] Cons.IH [of d] a Inr by simp
    next
      case r: (Inr c)
      then show ?thesis
        using Cons.IH [of "reduce_spec a d"] Cons.IH [of d] a Inr
        by (simp add: reduce_spec_assoc)
    qed
  qed
qed

lemma main_loop_append_reduce:
  "main_loop now (xs @ ys) init_acc = Inr c \<longleftrightarrow>
     (\<exists>a b. main_loop now xs init_acc = Inr a \<and> main_loop now ys init_acc = Inr b \<and>
            c = reduce_spec a b)"
proof (cases "main_loop now xs init_acc")
  case (Inl e)
  then show ?thesis by (simp add: main_loop_append)
next
  case a: (Inr a)
  show ?thesis
  proof (cases "main_loop now ys init_acc")
    case (Inl e)
    then have "main_loop now ys a = Inl e"
      using main_loop_reduce [of now ys a] by simp
    with a Inl show ?thesis by (simp add: main_loop_append)
  next
    case (Inr b)
    then have "main_loop now ys a = Inr (reduce_spec a b)"
      using main_loop_reduce [of now ys a] by simp
    with a Inr show ?thesis by (auto simp: main_loop_append)
  qed
qed

lemma main_loop_permuted:
  "mset ys = mset xs \<Longrightarrow> main_loop now xs init_acc = Inr a \<Longrightarrow>
     \<exists>b. main_loop now ys init_acc = Inr b \<and> same_totals b a"
proof (induction xs arbitrary: ys a)
  case Nil
  then show ?case by (simp add: same_totals_refl)
next
  case (Cons x xs)
  from Cons.prems(1) have "x \<in> set ys"
    by (metis list.set_intros(1) set_mset_mset)
  then obtain ys1 ys2 where ys: "ys = ys1 @ x # ys2" by (auto dest: split_list)
  with Cons.prems(1) have m: "mset (ys1 @ ys2) = mset xs" by simp
  from Cons.prems(2) have "main_loop now ([x] @ xs) init_acc = Inr a" by simp
  then obtain d a0 where d: "main_loop now [x] init_acc = Inr d"
    and a0: "main_loop now xs init_acc = Inr a0" and a: "a = reduce_spec d a0"
    unfolding main_loop_append_reduce by blast
  from Cons.IH [OF m a0] obtain b0 where b0: "main_loop now (ys1 @ ys2) init_acc = Inr b0"
    and s: "same_totals b0 a0" by blast
  from b0 obtain b1 b2 where b1: "main_loop now ys1 init_acc = Inr b1"
    and b2: "main_loop now ys2 init_acc = Inr b2" and b: "b0 = reduce_spec b1 b2"
    unfolding main_loop_append_reduce by blast
  from d b2 have "main_loop now ([x] @ ys2) init_acc = Inr (reduce_spec d b2)"
    unfolding main_loop_append_reduce by blast
  with b1 have "main_loop now (ys1 @ [x] @ ys2) init_acc = Inr (reduce_spec b1 (reduce_spec d b2))"
    unfolding main_loop_append_reduce [of now ys1] by blast
  then have "main_loop now ys init_acc = Inr (reduce_spec b1 (reduce_spec d b2))"
    by (simp add: ys)
  moreover have "same_totals (reduce_spec b1 (reduce_spec d b2)) a"
    unfolding a using s b by (rule same_totals_insert)
  ultimately show ?case by blast
qed

lemma main_loop_open_example:
  "main_loop 1704880800000000 [repo_open] init_acc = Inr acc_open"
  by (simp add: process_repo_def aggregate_repo_def repo_open_def pr_open_def
      today_start_def days_def hours_def raised_today_def merged_today_def empty_scan_def
      scan_pr_def states_of_def has_label_def lower_def lower_char_def
      cycle_times_def build_members_def count_authors_def set_reviews_done_def rows_of_def
      default_stats_def init_acc_def acc_open_def track_oldest_def)

lemma main_loop_demo_example:
  "main_loop 1704880800000000 [repo_demo] init_acc = Inr acc_demo"
  using process_repo_example by simp

text \<open>
  C6. The loop over the repositories is a reduction of the per-repository aggregates:
  the loop over two sequences of repositories, one after the other, gives the reducer's
  combination of the two results; run over the same repositories in any other order it
  gives the same global totals, the same pool of review-cycle durations and the same
  oldest open date; and the reducer is associative, and commutative on those figures.
\<close>

theorem reduction_any_order_any_grouping:
  assumes "main_loop now xs init_acc = Inr a" and "main_loop now ys init_acc = Inr b"
  shows "main_loop now (xs @ ys) init_acc = Inr (reduce_spec a b) \<and>
    (mset zs = mset (xs @ ys) \<longrightarrow>
       (\<exists>d. main_loop now zs init_acc = Inr d \<and> same_totals d (reduce_spec a b))) \<and>
    reduce_spec (reduce_spec a b) c = reduce_spec a (reduce_spec b c) \<and>
    same_totals (reduce_spec a b) (reduce_spec b a)"
proof (intro conjI impI)
  show ab: "main_loop now (xs @ ys) init_acc = Inr (reduce_spec a b)"
    unfolding main_loop_append_reduce using assms by blast
  show "\<exists>d. main_loop now zs init_acc = Inr d \<and> same_totals d (reduce_spec a b)"
    if "mset zs = mset (xs @ ys)"
    using that ab by (rule main_loop_permuted)
  show "reduce_spec (reduce_spec a b) c = reduce_spec a (reduce_spec b c)"
    by (rule reduce_spec_assoc)
  show "same_totals (reduce_spec a b) (reduce_spec b a)"
    by (rule same_totals_commute)
qed

theorem reduction_any_order_any_grouping_witness:
  "main_loop 1704880800000000 [repo_demo] init_acc = Inr acc_demo \<and>
   main_loop 1704880800000000 [repo_open] init_acc = Inr acc_open \<and>
   main_loop 1704880800000000 [repo_demo, repo_open] init_acc =
     Inr (reduce_spec acc_demo acc_open) \<and>
   (\<exists>d. main_loop 1704880800000000 [repo_open, repo_demo] init_acc = Inr d \<and>
        same_totals d (reduce_spec acc_demo acc_open)) \<and>
   total_raised (reduce_spec acc_demo acc_open) = 1 \<and>
   total_not_approved (reduce_spec acc_demo acc_open) = 1 \<and>
   review_cycle_times (reduce_spec acc_demo acc_open) = [0] \<and>
   oldest_open_date (reduce_spec acc_demo acc_open) = Some 1704000000000000"
proof -
  have m: "mset [repo_open, repo_demo] = mset ([repo_demo] @ [repo_open])" by simp
  have v: "total_raised (reduce_spec acc_demo acc_open) = 1 \<and>
   total_not_approved (reduce_spec acc_demo acc_open) = 1 \<and>
   review_cycle_times (reduce_spec acc_demo acc_open) = [0] \<and>
   oldest_open_date (reduce_spec acc_demo acc_open) = Some 1704000000000000"
    by (simp add: reduce_spec_def acc_demo_def acc_open_def)
  from reduction_any_order_any_grouping [OF main_loop_demo_example main_loop_open_example,
      of "[repo_open, repo_demo]"] m
  have "main_loop 1704880800000000 ([repo_demo] @ [repo_open]) init_acc =
     Inr (reduce_spec acc_demo acc_open) \<and>
   (\<exists>d. main_loop 1704880800000000 [repo_open, repo_demo] init_acc = Inr d \<and>
        same_totals d (reduce_spec acc_demo acc_open))"
    by blast
  then have "main_loop 1704880800000000 [repo_demo, repo_open] init_acc =
     Inr (reduce_spec acc_demo acc_open) \<and>
   (\<exists>d. main_loop 1704880800000000 [repo_open, repo_demo] init_acc = Inr d \<and>
        same_totals d (reduce_spec acc_demo acc_open))"
    by (simp del: main_loop.simps)
  with main_loop_demo_example main_loop_open_example v show ?thesis by blast
qed

end
